theory Spec2Isabelle
  imports Main "HOL-Library.Signed_Division"
begin

section \<open>The bounded queue of QueueTest/queue.h\<close>

text \<open>
  The class template \<open>Queue<T>\<close> keeps a circular buffer in a heap array together with
  four \<open>int\<close> fields. The embedding below gives the effect of each member function when
  it runs its critical section: every member function takes the one mutex of the object
  for its whole body, and a waiting \<open>Pop\<close> gives the mutex up atomically, so an execution
  with several threads is a sequence of these effects. The two waits on the condition
  variable are modelled for a thread that is alone with the queue (see \<open>wait\<close> and
  \<open>wait_for\<close>); the timed wait also gives the time for which it suspends its caller.
\<close>

subsection \<open>Errors\<close>

text \<open>
  \<open>Timeout\<close> is the \<open>runtime_error("Timeout: No elements in queue")\<close> thrown by
  \<open>PopWithTimeout\<close>. \<open>BadAlloc\<close> is the exception of \<open>new T[size]\<close> for a negative
  \<open>size\<close> (\<open>std::bad_array_new_length\<close>, a \<open>std::bad_alloc\<close>). The other three are
  undefined behaviour of C++ that the source does not guard against: \<open>%\<close> with a zero
  divisor, an array index outside the allocated array, and the read of an array element
  that was never assigned.
\<close>

datatype error = Timeout | BadAlloc | DivisionByZero | IndexOutOfBounds | UninitialisedRead

subsection \<open>Object state\<close>

text \<open>
  The private fields of the class, in the order of their declaration. The array
  \<open>elements\<close> is a list of slots; a slot is \<open>None\<close> until something is assigned to it
  (\<open>new T[size]\<close> leaves the elements of an \<open>int\<close> array indeterminate). The field
  \<open>size\<close> of the source is \<open>size_q\<close> here. The \<open>int\<close> fields are mathematical integers:
  under the invariant \<open>well_formed\<close> below every value the code computes lies between \<open>0\<close> and
  \<open>size\<close>, which is an \<open>int\<close> of the program, so no arithmetic of the code overflows.
\<close>

record 'a Queue =
  elements :: "'a option list"
  size_q :: int
  count :: int
  front :: int
  rear :: int

definition in_bounds :: "'a Queue \<Rightarrow> int \<Rightarrow> bool" where
  \<comment> \<open>the index \<open>i\<close> designates an element of the allocated array\<close>
  "in_bounds q i = (0 \<le> i \<and> i < int (length (elements q)))"

subsection \<open>Constructor\<close>

text \<open>
  \<open>Queue(int size) : size(size), count(0), front(0), rear(0) { elements = new T[size]; }\<close>
  There is no check of \<open>size\<close>. The array \<open>new\<close>-expression throws for a negative
  length and returns an array of \<open>size\<close> elements otherwise (also for \<open>size = 0\<close>);
  running out of memory is not modelled.
\<close>

definition Queue :: "int \<Rightarrow> error + 'a Queue" where
  "Queue sz =
     (if sz < 0 then Inl BadAlloc
      else Inr \<lparr>elements = replicate (nat sz) None, size_q = sz, count = 0, front = 0, rear = 0\<rparr>)"

subsection \<open>Push\<close>

text \<open>
  \<^verbatim>\<open>
  if (count == size) { front = (front + 1) % size; } else { ++count; }
  elements[rear] = element;
  rear = (rear + 1) % size;
  cond_var.notify_one();
  \<close>
  The operator \<open>%\<close> of C++ truncates towards zero, which is \<open>smod\<close>. The result is the
  value returned or the error, and the state of the object at that point.
\<close>

definition Push :: "'a \<Rightarrow> 'a Queue \<Rightarrow> (error + unit) \<times> 'a Queue" where
  "Push element q =
     (if count q = size_q q \<and> size_q q = 0 then (Inl DivisionByZero, q)
      else
        let q1 = (if count q = size_q q then q\<lparr>front := (front q + 1) smod size_q q\<rparr>
                  else q\<lparr>count := count q + 1\<rparr>)
        in if \<not> in_bounds q1 (rear q1) then (Inl IndexOutOfBounds, q1)
           else
             let q2 = q1\<lparr>elements := (elements q1)[nat (rear q1) := Some element]\<rparr>
             in if size_q q2 = 0 then (Inl DivisionByZero, q2)
                else (Inr (), q2\<lparr>rear := (rear q2 + 1) smod size_q q2\<rparr>))"

subsection \<open>The two waits\<close>

text \<open>
  \<open>cond_var.wait(lock, pred)\<close> is \<open>while (!pred()) wait(lock);\<close> and
  \<open>cond_var.wait_for(lock, d, pred)\<close> is
  \<open>while (!pred()) if (wait_until(lock, deadline) == cv_status::timeout) return pred(); return true;\<close>
  with \<open>pred\<close> the test \<open>count > 0\<close>. For a thread that is alone with the queue the
  value of \<open>pred\<close> cannot change while it waits: \<open>wait\<close> returns at once when
  \<open>count > 0\<close> and never otherwise (\<open>None\<close>); \<open>wait_for\<close> returns \<open>true\<close> at once when
  \<open>count > 0\<close>, and otherwise suspends the thread until the deadline, which is
  \<open>milliseconds\<close> after the call, and then returns \<open>pred()\<close>, which is \<open>false\<close>. Neither
  changes a field.

  \<open>wait_for\<close> gives the value returned and the time, in milliseconds on the clock of the
  deadline, for which the calling thread is suspended: none when the loop is not entered,
  and the time to the deadline otherwise, which is none as well when the duration is zero
  or negative, for then the deadline has passed when \<open>wait_until\<close> is called.
\<close>

definition wait :: "'a Queue \<Rightarrow> unit option" where
  "wait q = (if 0 < count q then Some () else None)"

definition wait_for :: "int \<Rightarrow> 'a Queue \<Rightarrow> bool \<times> int" where
  "wait_for milliseconds q =
     (if 0 < count q then (True, 0) else (0 < count q, max 0 milliseconds))"

subsection \<open>Pop and PopWithTimeout\<close>

text \<open>
  \<^verbatim>\<open>
  cond_var.wait(lock, [this]() { return count > 0; });
  T element = elements[front];
  front = (front + 1) % size;
  --count;
  return element;
  \<close>
  \<open>None\<close> is a call that never returns.
\<close>

definition Pop :: "'a Queue \<Rightarrow> ((error + 'a) \<times> 'a Queue) option" where
  "Pop q =
     (case wait q of
        None \<Rightarrow> None
      | Some _ \<Rightarrow>
          Some (if \<not> in_bounds q (front q) then (Inl IndexOutOfBounds, q)
                else case elements q ! nat (front q) of
                       None \<Rightarrow> (Inl UninitialisedRead, q)
                     | Some element \<Rightarrow>
                         if size_q q = 0 then (Inl DivisionByZero, q)
                         else (Inr element,
                               q\<lparr>front := (front q + 1) smod size_q q, count := count q - 1\<rparr>)))"

text \<open>
  \<^verbatim>\<open>
  if (!cond_var.wait_for(lock, chrono::milliseconds(milliseconds), [this]() { return count > 0; })) {
      throw runtime_error("Timeout: No elements in queue");
  }
  T element = elements[front];
  front = (front + 1) % size;
  --count;
  return element;
  \<close>
  \<open>PopWithTimeout_timed\<close> is the member function with all that a call of it does: the
  time for which the caller was suspended in \<open>wait_for\<close>, the value returned or the
  error, and the state of the object. \<open>PopWithTimeout\<close> is the same call without the
  time.
\<close>

definition PopWithTimeout_timed :: "int \<Rightarrow> 'a Queue \<Rightarrow> int \<times> (error + 'a) \<times> 'a Queue" where
  "PopWithTimeout_timed milliseconds q =
     (case wait_for milliseconds q of
        (available, suspended) \<Rightarrow>
          (suspended,
           if \<not> available then (Inl Timeout, q)
           else if \<not> in_bounds q (front q) then (Inl IndexOutOfBounds, q)
           else case elements q ! nat (front q) of
                  None \<Rightarrow> (Inl UninitialisedRead, q)
                | Some element \<Rightarrow>
                    if size_q q = 0 then (Inl DivisionByZero, q)
                    else (Inr element,
                          q\<lparr>front := (front q + 1) smod size_q q, count := count q - 1\<rparr>)))"

definition PopWithTimeout :: "int \<Rightarrow> 'a Queue \<Rightarrow> (error + 'a) \<times> 'a Queue" where
  "PopWithTimeout milliseconds q = snd (PopWithTimeout_timed milliseconds q)"

subsection \<open>Count and Size\<close>

definition Count :: "'a Queue \<Rightarrow> int" where
  "Count q = count q"

definition Size :: "'a Queue \<Rightarrow> int" where
  "Size q = size_q q"

subsection \<open>Client code\<close>

text \<open>
  The collaborators of the queue (the driver \<open>main\<close> and the tests) are threads that call
  the five public member functions one after the other. A \<open>call\<close> is one such call and a
  \<open>reply\<close> what the caller sees of it: the return of \<open>Push\<close>, a popped element, the
  \<open>int\<close> of \<open>Count\<close> or \<open>Size\<close>, an error, or no return at all.
\<close>

datatype 'a call = CallPush 'a | CallPop | CallPopWithTimeout int | CallCount | CallSize

datatype 'a reply = Void | Value 'a | Number int | Raised error | Blocked

fun perform :: "'a call \<Rightarrow> 'a Queue \<Rightarrow> 'a reply \<times> 'a Queue" where
  "perform (CallPush x) q =
     (case Push x q of (Inl e, q') \<Rightarrow> (Raised e, q') | (Inr _, q') \<Rightarrow> (Void, q'))"
| "perform CallPop q =
     (case Pop q of
        None \<Rightarrow> (Blocked, q)
      | Some (Inl e, q') \<Rightarrow> (Raised e, q')
      | Some (Inr x, q') \<Rightarrow> (Value x, q'))"
| "perform (CallPopWithTimeout d) q =
     (case PopWithTimeout d q of (Inl e, q') \<Rightarrow> (Raised e, q') | (Inr x, q') \<Rightarrow> (Value x, q'))"
| "perform CallCount q = (Number (Count q), q)"
| "perform CallSize q = (Number (Size q), q)"

text \<open>
  A call that never returns ends the sequence, and so does undefined behaviour. The
  \<open>Timeout\<close> exception is caught by the callers (\<open>catch (const runtime_error&)\<close> in
  \<open>main\<close>, \<open>EXPECT_THROW\<close> in the tests), which then go on.
\<close>

fun ends_run :: "'a reply \<Rightarrow> bool" where
  "ends_run Blocked = True"
| "ends_run (Raised e) = (e \<noteq> Timeout)"
| "ends_run _ = False"

text \<open>
  \<open>run cs q\<close> performs the calls \<open>cs\<close> in order from the state \<open>q\<close> and gives the
  replies and the last state. Since all critical sections of the queue exclude each
  other, the critical sections of an execution with several threads, in the order in
  which they took the mutex, are such a sequence too, in which no \<open>Pop\<close> finds the queue
  empty (a \<open>Pop\<close> that waited runs its critical section once \<open>count > 0\<close>).
\<close>

fun run :: "'a call list \<Rightarrow> 'a Queue \<Rightarrow> 'a reply list \<times> 'a Queue" where
  "run [] q = ([], q)"
| "run (c # cs) q =
     (case perform c q of
        (r, q') \<Rightarrow>
          if ends_run r then ([r], q')
          else (case run cs q' of (rs, q'') \<Rightarrow> (r # rs, q'')))"

subsection \<open>Live elements and invariants\<close>

text \<open>
  \<open>slot q i\<close> is the array element \<open>i\<close> places after \<open>front\<close>, around the end of the
  array, and \<open>contents q\<close> the \<open>count\<close> elements from \<open>front\<close> on: the elements a
  consumer can still get, oldest first.
\<close>

definition slot :: "'a Queue \<Rightarrow> nat \<Rightarrow> 'a option" where
  "slot q i = elements q ! nat ((front q + int i) mod size_q q)"

definition contents :: "'a Queue \<Rightarrow> 'a option list" where
  "contents q = map (slot q) [0..<nat (count q)]"

text \<open>
  The representation invariant of the class: a positive capacity, an array of that
  length, \<open>count\<close> and \<open>front\<close> in range, \<open>rear\<close> determined by \<open>front\<close> and \<open>count\<close>, and
  every live element assigned.
\<close>

definition well_formed :: "'a Queue \<Rightarrow> bool" where
  "well_formed q \<longleftrightarrow>
     1 \<le> size_q q \<and> length (elements q) = nat (size_q q) \<and>
     0 \<le> count q \<and> count q \<le> size_q q \<and>
     0 \<le> front q \<and> front q < size_q q \<and>
     rear q = (front q + count q) mod size_q q \<and>
     None \<notin> set (contents q)"

text \<open>The three invariants on the indices, as the data model of the specification lists them.\<close>

definition invariants :: "'a Queue \<Rightarrow> bool" where
  "invariants q \<longleftrightarrow>
     0 \<le> count q \<and> count q \<le> size_q q \<and>
     rear q = (front q + count q) mod size_q q \<and>
     (count q = 0 \<longrightarrow> front q = rear q)"

text \<open>
  Two abbreviations for the proofs: the state after the front element has been taken,
  and the state after a list of elements has been pushed.
\<close>

definition popped :: "'a Queue \<Rightarrow> 'a Queue" where
  "popped q = q\<lparr>front := (front q + 1) mod size_q q, count := count q - 1\<rparr>"

definition push_all :: "'a list \<Rightarrow> 'a Queue \<Rightarrow> 'a Queue" where
  "push_all xs q = foldl (\<lambda>q x. snd (Push x q)) q xs"

section \<open>Arithmetic of the indices\<close>

lemma smod_nonneg: "0 \<le> a \<Longrightarrow> 0 < b \<Longrightarrow> a smod b = a mod (b::int)"
  by (simp add: signed_modulo_int_def sgn_if)

lemma shift_mod_neq: "0 < d \<Longrightarrow> d < n \<Longrightarrow> (a + d) mod n \<noteq> a mod (n::int)"
proof
  assume d: "0 < d" "d < n" and eq: "(a + d) mod n = a mod n"
  from eq have "n dvd (a + d) - a" by (simp only: mod_eq_dvd_iff)
  then have "n dvd d" by simp
  with d show False by (simp add: zdvd_not_zless)
qed

lemma mod_add_self_mid: "(a + (n + b)) mod n = (a + b) mod (n::int)"
proof -
  have "a + (n + b) = n + (a + b)" by simp
  then show ?thesis by (simp only: mod_add_self1)
qed

section \<open>Live elements\<close>

lemma length_contents: "length (contents q) = nat (count q)"
  by (simp add: contents_def)

lemma nth_contents: "i < nat (count q) \<Longrightarrow> contents q ! i = slot q i"
  by (simp add: contents_def)

lemma live_iff: "None \<notin> set (contents q) \<longleftrightarrow> (\<forall>i < nat (count q). slot q i \<noteq> None)"
proof
  assume a: "None \<notin> set (contents q)"
  show "\<forall>i<nat (count q). slot q i \<noteq> None"
  proof (intro allI impI)
    fix i assume "i < nat (count q)"
    then have "slot q i \<in> set (contents q)" by (simp add: contents_def)
    with a show "slot q i \<noteq> None" by metis
  qed
next
  assume a: "\<forall>i<nat (count q). slot q i \<noteq> None"
  show "None \<notin> set (contents q)"
  proof
    assume "None \<in> set (contents q)"
    then obtain i where "i < nat (count q)" "slot q i = None"
      by (auto simp: contents_def)
    with a show False by blast
  qed
qed

section \<open>Push on a well-formed queue\<close>

lemma Push_wf_eq:
  assumes "well_formed q"
  shows "Push x q =
     (Inr (), \<lparr>elements = (elements q)[nat (rear q) := Some x], size_q = size_q q,
              count = (if count q = size_q q then count q else count q + 1),
              front = (if count q = size_q q then (front q + 1) mod size_q q else front q),
              rear = (rear q + 1) mod size_q q\<rparr>)"
proof -
  from assms have n: "1 \<le> size_q q" and len: "length (elements q) = nat (size_q q)"
    and f: "0 \<le> front q" "front q < size_q q"
    and r: "rear q = (front q + count q) mod size_q q"
    by (simp_all add: well_formed_def)
  from n r have rb: "0 \<le> rear q" "rear q < size_q q" by simp_all
  show ?thesis
    using n len f rb by (simp add: Push_def in_bounds_def smod_nonneg Let_def)
qed

lemma Push_fields:
  assumes "well_formed q"
  shows "elements (snd (Push x q)) = (elements q)[nat (rear q) := Some x]"
    and "size_q (snd (Push x q)) = size_q q"
    and "count (snd (Push x q)) = (if count q = size_q q then count q else count q + 1)"
    and "front (snd (Push x q)) = (if count q = size_q q then (front q + 1) mod size_q q else front q)"
    and "rear (snd (Push x q)) = (rear q + 1) mod size_q q"
    and "fst (Push x q) = Inr ()"
  by (simp_all add: Push_wf_eq [OF assms])

lemma slot_Push:
  assumes wf: "well_formed q" and i: "i < nat (count (snd (Push x q)))"
  shows "slot (snd (Push x q)) i =
           (if int i + 1 = count (snd (Push x q)) then Some x
            else slot q (if count q = size_q q then i + 1 else i))"
proof -
  let ?n = "size_q q" and ?q' = "snd (Push x q)"
  note flds = Push_fields [OF wf, of x]
  from wf have n: "1 \<le> ?n" and len: "length (elements q) = nat ?n"
    and c: "0 \<le> count q" "count q \<le> ?n"
    and r: "rear q = (front q + count q) mod ?n"
    by (simp_all add: well_formed_def)
  from n r have rb: "0 \<le> rear q" "rear q < ?n" by simp_all
  define k where "k = (if count q = ?n then i + 1 else i)"
  have idx: "(front ?q' + int i) mod ?n = (front q + int k) mod ?n"
    by (simp add: k_def flds(4) mod_simps ac_simps)
  have sl: "slot ?q' i = (elements q)[nat (rear q) := Some x] ! nat ((front q + int k) mod ?n)"
    by (simp add: slot_def flds(1,2) idx)
  have kc: "int k \<le> count q"
    using i by (simp add: k_def flds(3) split: if_splits)
  show ?thesis
  proof (cases "int i + 1 = count ?q'")
    case True
    then have "int k = count q" by (simp add: k_def flds(3) split: if_splits)
    then have "(front q + int k) mod ?n = rear q" by (simp add: r)
    with sl rb len True show ?thesis by simp
  next
    case False
    with i have "int k < count q" by (simp add: k_def flds(3) split: if_splits)
    then have d: "0 < count q - int k" "count q - int k < ?n"
      using c by (auto simp: k_def split: if_splits)
    have "(front q + int k + (count q - int k)) mod ?n \<noteq> (front q + int k) mod ?n"
      by (rule shift_mod_neq [OF d])
    then have "(front q + int k) mod ?n \<noteq> rear q" by (simp add: r)
    then have "nat ((front q + int k) mod ?n) \<noteq> nat (rear q)"
      using n rb by (simp add: nat_eq_iff)
    with sl False show ?thesis by (simp add: slot_def k_def)
  qed
qed

lemma contents_Push:
  assumes wf: "well_formed q"
  shows "contents (snd (Push x q)) =
           (if count q = size_q q then tl (contents q) else contents q) @ [Some x]"
proof (rule nth_equalityI)
  note flds = Push_fields [OF wf, of x]
  from wf have n: "1 \<le> size_q q" and c: "0 \<le> count q" "count q \<le> size_q q"
    by (simp_all add: well_formed_def)
  show len: "length (contents (snd (Push x q))) =
      length ((if count q = size_q q then tl (contents q) else contents q) @ [Some x])"
    using n c by (simp add: length_contents flds(3) nat_add_distrib)
  fix i assume "i < length (contents (snd (Push x q)))"
  then have i: "i < nat (count (snd (Push x q)))" by (simp add: length_contents)
  have "contents (snd (Push x q)) ! i = slot (snd (Push x q)) i"
    by (rule nth_contents [OF i])
  also have "\<dots> = (if int i + 1 = count (snd (Push x q)) then Some x
            else slot q (if count q = size_q q then i + 1 else i))"
    by (rule slot_Push [OF wf i])
  also have "\<dots> = ((if count q = size_q q then tl (contents q) else contents q) @ [Some x]) ! i"
  proof (cases "int i + 1 = count (snd (Push x q))")
    case True
    then have "i = length (if count q = size_q q then tl (contents q) else contents q)"
      using n c by (auto simp: length_contents flds(3))
    with True show ?thesis by (simp add: nth_append)
  next
    case False
    with i have lt: "int i + 1 < count (snd (Push x q))" by simp
    show ?thesis
    proof (cases "count q = size_q q")
      case True
      with lt have i1: "i + 1 < nat (count q)" by (simp add: flds(3))
      then have "i < length (tl (contents q))" by (simp add: length_contents)
      then show ?thesis using True False i1
        by (simp add: nth_append nth_tl nth_contents)
    next
      case nf: False
      with lt have "i < nat (count q)" by (simp add: flds(3))
      then show ?thesis using nf False
        by (simp add: nth_append length_contents nth_contents)
    qed
  qed
  finally show "contents (snd (Push x q)) ! i =
      ((if count q = size_q q then tl (contents q) else contents q) @ [Some x]) ! i" .
qed

lemma well_formed_Push:
  assumes wf: "well_formed q"
  shows "well_formed (snd (Push x q))"
proof -
  let ?n = "size_q q"
  note flds = Push_fields [OF wf, of x]
  from wf have n: "1 \<le> ?n" and len: "length (elements q) = nat ?n"
    and c: "0 \<le> count q" "count q \<le> ?n"
    and f: "0 \<le> front q" "front q < ?n"
    and r: "rear q = (front q + count q) mod ?n"
    and live: "None \<notin> set (contents q)"
    by (simp_all add: well_formed_def)
  have rear': "rear (snd (Push x q)) = (front (snd (Push x q)) + count (snd (Push x q))) mod ?n"
    using n by (simp add: flds r mod_simps add.assoc mod_add_self_mid)
  have "set (tl (contents q)) \<subseteq> set (contents q)"
    by (cases "contents q") auto
  with live have live': "None \<notin> set (contents (snd (Push x q)))"
    by (auto simp: contents_Push [OF wf])
  show ?thesis
    unfolding well_formed_def
    using n len c f rear' live' by (simp add: flds)
qed

section \<open>Pop and PopWithTimeout on a well-formed queue\<close>

lemma PopWithTimeout_unfold:
  "PopWithTimeout milliseconds q =
     (if \<not> 0 < count q then (Inl Timeout, q)
      else if \<not> in_bounds q (front q) then (Inl IndexOutOfBounds, q)
      else case elements q ! nat (front q) of
             None \<Rightarrow> (Inl UninitialisedRead, q)
           | Some element \<Rightarrow>
               if size_q q = 0 then (Inl DivisionByZero, q)
               else (Inr element,
                     q\<lparr>front := (front q + 1) smod size_q q, count := count q - 1\<rparr>))"
  by (simp add: PopWithTimeout_def PopWithTimeout_timed_def wait_for_def)

lemma PopWithTimeout_timed_eq:
  "PopWithTimeout_timed milliseconds q =
     (if 0 < count q then 0 else max 0 milliseconds, PopWithTimeout milliseconds q)"
  by (simp add: PopWithTimeout_def PopWithTimeout_timed_def wait_for_def)

lemma slot_popped: "1 \<le> size_q q \<Longrightarrow> slot (popped q) i = slot q (i + 1)"
  by (simp add: slot_def popped_def mod_simps ac_simps)

lemma contents_popped:
  assumes n: "1 \<le> size_q q" and c: "0 < count q"
  shows "contents q = slot q 0 # contents (popped q)"
proof (rule nth_equalityI)
  show "length (contents q) = length (slot q 0 # contents (popped q))"
    using c by (simp add: length_contents popped_def)
  fix i assume "i < length (contents q)"
  then have i: "i < nat (count q)" by (simp add: length_contents)
  show "contents q ! i = (slot q 0 # contents (popped q)) ! i"
  proof (cases i)
    case 0
    with i show ?thesis by (simp add: nth_contents)
  next
    case (Suc j)
    with i have "j < nat (count (popped q))" by (simp add: popped_def)
    then have "contents (popped q) ! j = slot q (j + 1)"
      by (simp add: nth_contents slot_popped [OF n])
    with Suc i show ?thesis by (simp add: nth_contents)
  qed
qed

lemma well_formed_popped:
  assumes wf: "well_formed q" and c: "0 < count q"
  shows "well_formed (popped q)"
proof -
  let ?n = "size_q q"
  from wf have n: "1 \<le> ?n" and len: "length (elements q) = nat ?n"
    and cb: "count q \<le> ?n"
    and r: "rear q = (front q + count q) mod ?n"
    and live: "None \<notin> set (contents q)"
    by (simp_all add: well_formed_def)
  from live have "None \<notin> set (contents (popped q))"
    by (simp add: contents_popped [OF n c])
  moreover have "rear (popped q) = (front (popped q) + count (popped q)) mod ?n"
    by (simp add: popped_def r mod_simps)
  ultimately show ?thesis
    unfolding well_formed_def using n len cb c by (simp add: popped_def)
qed

lemma front_element:
  assumes wf: "well_formed q" and c: "0 < count q"
  shows "\<exists>x. elements q ! nat (front q) = Some x \<and> contents q = Some x # contents (popped q)"
proof -
  from wf have n: "1 \<le> size_q q" and f: "0 \<le> front q" "front q < size_q q"
    and live: "None \<notin> set (contents q)"
    by (simp_all add: well_formed_def)
  have s0: "slot q 0 = elements q ! nat (front q)"
    using f by (simp add: slot_def)
  from live c have "slot q 0 \<noteq> None" unfolding live_iff by simp
  then obtain x where "slot q 0 = Some x" by auto
  with s0 contents_popped [OF n c] show ?thesis by metis
qed

lemma PopWithTimeout_wf_eq:
  assumes wf: "well_formed q" and c: "0 < count q"
    and x: "elements q ! nat (front q) = Some x"
  shows "PopWithTimeout d q = (Inr x, popped q)"
proof -
  from wf have n: "1 \<le> size_q q" and len: "length (elements q) = nat (size_q q)"
    and f: "0 \<le> front q" "front q < size_q q"
    by (simp_all add: well_formed_def)
  show ?thesis
    using n len f c x
    by (simp add: PopWithTimeout_unfold in_bounds_def smod_nonneg popped_def)
qed

lemma Pop_wf_eq:
  assumes wf: "well_formed q" and c: "0 < count q"
    and x: "elements q ! nat (front q) = Some x"
  shows "Pop q = Some (Inr x, popped q)"
proof -
  from wf have n: "1 \<le> size_q q" and len: "length (elements q) = nat (size_q q)"
    and f: "0 \<le> front q" "front q < size_q q"
    by (simp_all add: well_formed_def)
  show ?thesis
    using n len f c x
    by (simp add: Pop_def wait_def in_bounds_def smod_nonneg popped_def)
qed

lemma Pop_empty: "count q \<le> 0 \<Longrightarrow> Pop q = None"
  by (simp add: Pop_def wait_def)

lemma PopWithTimeout_empty: "count q \<le> 0 \<Longrightarrow> PopWithTimeout d q = (Inl Timeout, q)"
  by (simp add: PopWithTimeout_unfold)

section \<open>Sequences of calls\<close>

lemma push_all_Nil: "push_all [] q = q"
  by (simp add: push_all_def)

lemma push_all_Cons: "push_all (x # xs) q = push_all xs (snd (Push x q))"
  by (simp add: push_all_def)

lemma well_formed_push_all: "well_formed q \<Longrightarrow> well_formed (push_all xs q)"
  by (induction xs arbitrary: q) (simp_all add: push_all_Nil push_all_Cons well_formed_Push)

lemma size_push_all: "well_formed q \<Longrightarrow> size_q (push_all xs q) = size_q q"
  by (induction xs arbitrary: q)
    (simp_all add: push_all_Nil push_all_Cons well_formed_Push Push_fields(2))

lemma contents_push_all:
  "well_formed q \<Longrightarrow>
   contents (push_all xs q) =
     drop (length (contents q) + length xs - nat (size_q q)) (contents q @ map Some xs)"
proof (induction xs arbitrary: q)
  case Nil
  then have "count q \<le> size_q q" by (simp add: well_formed_def)
  then show ?case by (simp add: push_all_Nil length_contents)
next
  case (Cons x xs)
  let ?q1 = "snd (Push x q)" and ?N = "nat (size_q q)"
  from Cons.prems have wf1: "well_formed ?q1" by (rule well_formed_Push)
  from Cons.prems have n: "1 \<le> size_q q" and c: "0 \<le> count q" "count q \<le> size_q q"
    by (simp_all add: well_formed_def)
  have sz: "size_q ?q1 = size_q q" by (rule Push_fields(2) [OF Cons.prems])
  have ih: "contents (push_all xs ?q1) =
      drop (length (contents ?q1) + length xs - ?N) (contents ?q1 @ map Some xs)"
    using Cons.IH [OF wf1] by (simp only: sz)
  show ?case
  proof (cases "count q = size_q q")
    case True
    then have len: "length (contents q) = ?N" by (simp add: length_contents)
    with n obtain y ys where cs: "contents q = y # ys" by (cases "contents q") auto
    from len cs have lys: "Suc (length ys) = ?N" by simp
    have c1: "contents ?q1 = ys @ [Some x]"
      using True cs by (simp add: contents_Push [OF Cons.prems])
    have "contents (push_all (x # xs) q) = drop (length xs) (ys @ Some x # map Some xs)"
      using lys by (simp add: push_all_Cons ih c1)
    also have "\<dots> = drop (length (contents q) + length (x # xs) - ?N)
        (contents q @ map Some (x # xs))"
      using lys by (simp add: cs)
    finally show ?thesis .
  next
    case False
    then have c1: "contents ?q1 = contents q @ [Some x]"
      by (simp add: contents_Push [OF Cons.prems])
    show ?thesis by (simp add: push_all_Cons ih c1)
  qed
qed

lemma perform_Push:
  "well_formed q \<Longrightarrow> perform (CallPush x) q = (Void, snd (Push x q))"
  using Push_fields(6) [of q x] by (cases "Push x q") simp

lemma perform_Pop:
  assumes "well_formed q" and "contents q = Some x # cs"
  shows "perform CallPop q = (Value x, popped q)"
    and "perform (CallPopWithTimeout d) q = (Value x, popped q)"
    and "contents (popped q) = cs"
proof -
  from assms(2) have c: "0 < count q"
    using length_contents [of q] by auto
  from front_element [OF assms(1) c] assms(2)
  have x: "elements q ! nat (front q) = Some x" and cs: "contents (popped q) = cs"
    by auto
  show "perform CallPop q = (Value x, popped q)"
    by (simp add: Pop_wf_eq [OF assms(1) c x])
  show "perform (CallPopWithTimeout d) q = (Value x, popped q)"
    by (simp add: PopWithTimeout_wf_eq [OF assms(1) c x])
  show "contents (popped q) = cs" by (rule cs)
qed

lemma perform_empty:
  assumes "count q \<le> 0"
  shows "perform CallPop q = (Blocked, q)"
    and "perform (CallPopWithTimeout d) q = (Raised Timeout, q)"
  using assms by (simp_all add: Pop_empty PopWithTimeout_empty)

lemma run_step:
  assumes "perform c q = (r, q')" and "\<not> ends_run r"
  shows "run (c # cs) q = (r # fst (run cs q'), snd (run cs q'))"
  using assms by (simp split: prod.split)

lemma run_stop:
  assumes "perform c q = (r, q')" and "ends_run r"
  shows "run (c # cs) q = ([r], q')"
  using assms by simp

lemma run_pushes:
  "well_formed q \<Longrightarrow>
   run (map CallPush xs @ cs) q =
     (replicate (length xs) Void @ fst (run cs (push_all xs q)), snd (run cs (push_all xs q)))"
proof (induction xs arbitrary: q)
  case Nil
  show ?case by (simp add: push_all_Nil)
next
  case (Cons x xs)
  from Cons.prems have "well_formed (snd (Push x q))" by (rule well_formed_Push)
  from Cons.IH [OF this] show ?case
    by (simp add: run_step [OF perform_Push [OF Cons.prems]] push_all_Cons del: run.simps)
qed

lemma run_pops:
  "well_formed q \<Longrightarrow> contents q = map Some ys @ rest \<Longrightarrow>
   run (replicate (length ys) CallPop @ cs) q =
     (map Value ys @ fst (run cs ((popped ^^ length ys) q)),
      snd (run cs ((popped ^^ length ys) q))) \<and>
   well_formed ((popped ^^ length ys) q) \<and> contents ((popped ^^ length ys) q) = rest"
proof (induction ys arbitrary: q)
  case Nil
  then show ?case by simp
next
  case (Cons y ys)
  from Cons.prems(2) have cq: "contents q = Some y # (map Some ys @ rest)" by simp
  then have c: "0 < count q" using length_contents [of q] by auto
  have wf': "well_formed (popped q)" by (rule well_formed_popped [OF Cons.prems(1) c])
  note p = perform_Pop [OF Cons.prems(1) cq]
  from Cons.IH [OF wf' p(3)] show ?case
    by (simp add: run_step [OF p(1)] funpow_swap1 del: run.simps)
qed

section \<open>Reachable states\<close>

lemma well_formed_Queue:
  assumes "1 \<le> n" and "Queue n = Inr q"
  shows "well_formed q" and "contents q = []" and "size_q q = n"
  using assms by (auto simp: Queue_def well_formed_def contents_def)

lemma well_formed_invariants: "well_formed q \<Longrightarrow> invariants q"
  by (simp add: well_formed_def invariants_def)

text \<open>
  The sums and the difference that the member functions compute stay between \<open>0\<close> and
  \<open>size\<close>, so they are values of the type \<open>int\<close> of the program.
\<close>

lemma index_arithmetic_bounded:
  assumes "well_formed q"
  shows "front q + 1 \<le> size_q q" and "rear q + 1 \<le> size_q q"
    and "count q \<noteq> size_q q \<Longrightarrow> count q + 1 \<le> size_q q"
    and "0 < count q \<Longrightarrow> 0 \<le> count q - 1"
proof -
  from assms have n: "1 \<le> size_q q" and c: "count q \<le> size_q q"
    and f: "front q < size_q q" and r: "rear q = (front q + count q) mod size_q q"
    by (simp_all add: well_formed_def)
  from n r have "rear q < size_q q" by simp
  then show "rear q + 1 \<le> size_q q" by simp
  from f show "front q + 1 \<le> size_q q" by simp
  from c show "count q \<noteq> size_q q \<Longrightarrow> count q + 1 \<le> size_q q" by simp
  show "0 < count q \<Longrightarrow> 0 \<le> count q - 1" by simp
qed

lemma contents_cases:
  obtains (empty) "count q \<le> 0" | (front) x cs where "contents q = Some x # cs" | (unassigned) "None \<in> set (contents q)"
proof (cases "contents q")
  case Nil
  then have "count q \<le> 0" using length_contents [of q] by simp
  then show ?thesis by (rule empty)
next
  case (Cons a cs)
  show ?thesis
  proof (cases a)
    case None
    with Cons show ?thesis by (auto intro: unassigned)
  next
    case (Some x)
    with Cons show ?thesis by (auto intro: front)
  qed
qed

lemma perform_well_formed:
  assumes wf: "well_formed q"
  shows "well_formed (snd (perform c q))" and "fst (perform c q) = Raised e \<Longrightarrow> e = Timeout"
    and "size_q (snd (perform c q)) = size_q q"
proof -
  have "well_formed (snd (perform c q)) \<and> (fst (perform c q) = Raised e \<longrightarrow> e = Timeout)
      \<and> size_q (snd (perform c q)) = size_q q"
  proof (cases c)
    case (CallPush x)
    then show ?thesis
      using wf by (simp add: perform_Push [OF wf] well_formed_Push Push_fields(2) del: perform.simps)
  next
    case CallPop
    show ?thesis
    proof (cases q rule: contents_cases)
      case empty
      then show ?thesis using wf CallPop by (simp add: perform_empty del: perform.simps)
    next
      case (front x cs)
      then have "0 < count q" using length_contents [of q] by auto
      then show ?thesis using wf CallPop
        by (simp add: perform_Pop [OF wf front] well_formed_popped del: perform.simps)
          (simp add: popped_def)
    next
      case unassigned
      with wf show ?thesis by (simp add: well_formed_def)
    qed
  next
    case (CallPopWithTimeout d)
    show ?thesis
    proof (cases q rule: contents_cases)
      case empty
      then show ?thesis using wf CallPopWithTimeout by (simp add: perform_empty del: perform.simps)
    next
      case (front x cs)
      then have "0 < count q" using length_contents [of q] by auto
      then show ?thesis using wf CallPopWithTimeout
        by (simp add: perform_Pop [OF wf front] well_formed_popped del: perform.simps)
          (simp add: popped_def)
    next
      case unassigned
      with wf show ?thesis by (simp add: well_formed_def)
    qed
  next
    case CallCount
    then show ?thesis using wf by simp
  next
    case CallSize
    then show ?thesis using wf by simp
  qed
  then show "well_formed (snd (perform c q))" and "fst (perform c q) = Raised e \<Longrightarrow> e = Timeout"
    and "size_q (snd (perform c q)) = size_q q"
    by simp_all
qed

lemma run_well_formed:
  "well_formed q \<Longrightarrow>
   well_formed (snd (run cs q)) \<and> size_q (snd (run cs q)) = size_q q \<and>
   (\<forall>e. Raised e \<in> set (fst (run cs q)) \<longrightarrow> e = Timeout)"
proof (induction cs arbitrary: q)
  case Nil
  then show ?case by simp
next
  case (Cons c cs)
  obtain r q' where p: "perform c q = (r, q')" by (cases "perform c q")
  note pw = perform_well_formed [OF Cons.prems, of c]
  from pw(1) p have wf': "well_formed q'" by simp
  from pw(3) p have sz: "size_q q' = size_q q" by simp
  from pw(2) p have r: "\<And>e. r = Raised e \<Longrightarrow> e = Timeout" by simp
  show ?case
  proof (cases "ends_run r")
    case True
    with p wf' sz r show ?thesis by (auto simp del: perform.simps)
  next
    case False
    from Cons.IH [OF wf'] sz r show ?thesis
      by (auto simp add: run_step [OF p False] simp del: run.simps)
  qed
qed


lemma size_q_perform: "size_q (snd (perform c q)) = size_q q"
proof (cases c)
  case (CallPush x)
  then show ?thesis by (simp add: Push_def Let_def)
next
  case CallPop
  then show ?thesis by (simp add: Pop_def split: option.split)
next
  case (CallPopWithTimeout d)
  then show ?thesis by (simp add: PopWithTimeout_unfold split: option.split)
next
  case CallCount
  then show ?thesis by simp
next
  case CallSize
  then show ?thesis by simp
qed

lemma size_q_run: "size_q (snd (run cs q)) = size_q q"
proof (induction cs arbitrary: q)
  case Nil
  show ?case by simp
next
  case (Cons c cs)
  obtain r q' where p: "perform c q = (r, q')" by (cases "perform c q")
  with size_q_perform [of c q] have sz: "size_q q' = size_q q" by simp
  show ?case
  proof (cases "ends_run r")
    case True
    then show ?thesis by (simp add: run_stop [OF p True] sz del: run.simps)
  next
    case False
    then show ?thesis using Cons.IH [of q'] by (simp add: run_step [OF p False] sz del: run.simps)
  qed
qed

section \<open>Properties of the queue\<close>

text \<open>
  C1. In a queue of capacity \<open>N \<ge> 1\<close>, after \<open>N + k\<close> elements (\<open>k \<ge> 1\<close>) have been pushed
  with no pop in between, \<open>Count\<close> is \<open>N\<close>, the next \<open>N\<close> calls of \<open>Pop\<close> return the
  last \<open>N\<close> pushed elements, oldest first, and a further \<open>Pop\<close> finds nothing: the first
  \<open>k\<close> pushed elements, and whatever the queue held before, are gone.
\<close>

theorem overflow_keeps_last_elements:
  assumes "well_formed q" and "length xs = nat (Size q) + k" and "1 \<le> k"
  shows "Count (snd (run (map CallPush xs) q)) = Size q \<and>
         fst (run (map CallPush xs @ replicate (nat (Size q)) CallPop @ [CallPop]) q) =
           replicate (length xs) Void @ map Value (drop k xs) @ [Blocked]"
proof -
  let ?N = "nat (Size q)" and ?q1 = "push_all xs q"
  from assms(1) have n: "1 \<le> size_q q" and c: "count q \<le> size_q q"
    by (simp_all add: well_formed_def)
  have wf1: "well_formed ?q1" by (rule well_formed_push_all [OF assms(1)])
  have "length (contents q) \<le> ?N" using c by (simp add: length_contents Size_def)
  then have k: "length (contents q) + length xs - ?N = length (contents q) + k"
    using assms(2) by simp
  have c1: "contents ?q1 = map Some (drop k xs)"
    using k by (simp add: contents_push_all [OF assms(1)] Size_def drop_map)
  have l1: "length (drop k xs) = ?N" using assms(2) by simp
  from c1 l1 have cnt1: "count ?q1 = Size q"
    using length_contents [of ?q1] n by (simp add: Size_def)
  from c1 have c1': "contents ?q1 = map Some (drop k xs) @ []" by simp
  let ?q2 = "(popped ^^ length (drop k xs)) ?q1"
  note pops = run_pops [OF wf1 c1', of "[CallPop]"]
  from pops have "contents ?q2 = []" by simp
  then have "count ?q2 \<le> 0" using length_contents [of ?q2] by simp
  then have last: "run [CallPop] ?q2 = ([Blocked], ?q2)"
    by (simp add: run_stop [OF perform_empty(1)] del: run.simps)
  have "run (map CallPush xs) q = (replicate (length xs) Void, ?q1)"
    using run_pushes [OF assms(1), of xs "[]"] by simp
  then have A: "Count (snd (run (map CallPush xs) q)) = Size q"
    by (simp add: Count_def cnt1)
  have "fst (run (map CallPush xs @ replicate ?N CallPop @ [CallPop]) q) =
      replicate (length xs) Void @ fst (run (replicate ?N CallPop @ [CallPop]) ?q1)"
    by (simp add: run_pushes [OF assms(1)] del: run.simps)
  also have "run (replicate ?N CallPop @ [CallPop]) ?q1 =
      (map Value (drop k xs) @ [Blocked], ?q2)"
    using pops last by (simp only: l1 fst_conv snd_conv)
  finally show ?thesis using A by simp
qed

text \<open>
  The test \<open>OverflowDrop\<close>: capacity 2, push 1, 2, 3, then the pops return 2 and 3.
\<close>

theorem overflow_keeps_last_elements_witness:
  "(Queue 2 :: error + int Queue) =
     Inr \<lparr>elements = [None, None], size_q = 2, count = 0, front = 0, rear = 0\<rparr> \<and>
   fst (run [CallPush (1::int), CallPush 2, CallPush 3, CallPop, CallPop, CallPop]
          \<lparr>elements = [None, None], size_q = 2, count = 0, front = 0, rear = 0\<rparr>) =
     [Void, Void, Void, Value 2, Value 3, Blocked]"
proof -
  let ?q = "\<lparr>elements = [None, None], size_q = 2, count = 0, front = 0, rear = 0\<rparr> :: int Queue"
  have q: "Queue 2 = Inr ?q" by (simp add: Queue_def numeral_2_eq_2)
  have wf: "well_formed ?q" by (simp add: well_formed_def contents_def)
  have len: "length [1::int, 2, 3] = nat (Size ?q) + 1" by (simp add: Size_def)
  have two: "replicate (nat (Size ?q)) CallPop = [CallPop, CallPop]"
    by (simp add: Size_def numeral_2_eq_2)
  from overflow_keeps_last_elements [OF wf len] q show ?thesis
    by (simp add: two del: run.simps)
qed

text \<open>
  C2. When the pushes do not overflow the capacity, the pops return the elements in the
  order in which they were pushed: a queue that holds \<open>ys\<close> (oldest first) and is pushed
  \<open>xs\<close>, with room for all of them, gives \<open>ys\<close> and then \<open>xs\<close>. For an empty queue \<open>ys\<close> is
  empty and the pops return exactly \<open>xs\<close>.
\<close>

theorem fifo_order:
  assumes "well_formed q" and "contents q = map Some ys"
    and "length ys + length xs \<le> nat (Size q)"
  shows "fst (run (map CallPush xs @ replicate (length ys + length xs) CallPop) q) =
           replicate (length xs) Void @ map Value (ys @ xs)"
proof -
  let ?q1 = "push_all xs q"
  have wf1: "well_formed ?q1" by (rule well_formed_push_all [OF assms(1)])
  have c1: "contents ?q1 = map Some (ys @ xs) @ []"
    using assms(2,3) by (simp add: contents_push_all [OF assms(1)] Size_def)
  have "fst (run (map CallPush xs @ replicate (length ys + length xs) CallPop) q) =
      replicate (length xs) Void @ fst (run (replicate (length (ys @ xs)) CallPop @ []) ?q1)"
    by (simp add: run_pushes [OF assms(1)] del: run.simps)
  also have "fst (run (replicate (length (ys @ xs)) CallPop @ []) ?q1) = map Value (ys @ xs)"
    using run_pops [OF wf1 c1, of "[]"] by (simp del: run.simps append_Nil2) simp
  finally show ?thesis .
qed

text \<open>The test \<open>BasicPushPop\<close>: capacity 2, push 1, 2, then the pops return 1 and 2.\<close>

theorem fifo_order_witness:
  "(Queue 2 :: error + int Queue) =
     Inr \<lparr>elements = [None, None], size_q = 2, count = 0, front = 0, rear = 0\<rparr> \<and>
   fst (run [CallPush (1::int), CallPush 2, CallPop, CallPop]
          \<lparr>elements = [None, None], size_q = 2, count = 0, front = 0, rear = 0\<rparr>) =
     [Void, Void, Value 1, Value 2]"
proof -
  let ?q = "\<lparr>elements = [None, None], size_q = 2, count = 0, front = 0, rear = 0\<rparr> :: int Queue"
  have q: "Queue 2 = Inr ?q" by (simp add: Queue_def numeral_2_eq_2)
  have wf: "well_formed ?q" by (simp add: well_formed_def contents_def)
  have cs: "contents ?q = map Some []" by (simp add: contents_def)
  have len: "length ([]::int list) + length [1::int, 2] \<le> nat (Size ?q)" by (simp add: Size_def)
  from fifo_order [OF wf cs len] q show ?thesis
    by (simp add: numeral_2_eq_2 del: run.simps)
qed

text \<open>
  C3. \<open>Push\<close> on a queue that satisfies the representation invariant returns normally.
  It writes the element into the slot \<open>rear\<close>, which is inside the array, and advances
  \<open>rear\<close> by one modulo the capacity. When the queue is full (\<open>count = size\<close>) it advances
  \<open>front\<close> by one modulo the capacity and leaves \<open>count\<close> as it is; otherwise it adds one to
  \<open>count\<close> and leaves \<open>front\<close> as it is.
\<close>

theorem Push_effect:
  assumes "well_formed q"
  shows "fst (Push x q) = Inr () \<and>
         in_bounds q (rear q) \<and>
         elements (snd (Push x q)) = (elements q)[nat (rear q) := Some x] \<and>
         rear (snd (Push x q)) = (rear q + 1) mod size_q q \<and>
         (if count q = size_q q
          then front (snd (Push x q)) = (front q + 1) mod size_q q \<and>
               count (snd (Push x q)) = count q
          else front (snd (Push x q)) = front q \<and>
               count (snd (Push x q)) = count q + 1)"
proof -
  from assms have "1 \<le> size_q q" and "length (elements q) = nat (size_q q)"
    and "rear q = (front q + count q) mod size_q q"
    by (simp_all add: well_formed_def)
  then have "in_bounds q (rear q)" by (simp add: in_bounds_def)
  then show ?thesis by (simp add: Push_fields [OF assms])
qed

text \<open>A full queue of capacity 2 that holds 1 and 2 is pushed 3.\<close>

theorem Push_effect_witness:
  "well_formed \<lparr>elements = [Some (1::int), Some 2], size_q = 2, count = 2, front = 0, rear = 0\<rparr> \<and>
   fst (Push 3 \<lparr>elements = [Some (1::int), Some 2], size_q = 2, count = 2, front = 0, rear = 0\<rparr>) = Inr () \<and>
   elements (snd (Push 3 \<lparr>elements = [Some (1::int), Some 2], size_q = 2, count = 2, front = 0, rear = 0\<rparr>)) =
     [Some 3, Some 2] \<and>
   rear (snd (Push 3 \<lparr>elements = [Some (1::int), Some 2], size_q = 2, count = 2, front = 0, rear = 0\<rparr>)) = 1 \<and>
   front (snd (Push 3 \<lparr>elements = [Some (1::int), Some 2], size_q = 2, count = 2, front = 0, rear = 0\<rparr>)) = 1 \<and>
   count (snd (Push 3 \<lparr>elements = [Some (1::int), Some 2], size_q = 2, count = 2, front = 0, rear = 0\<rparr>)) = 2"
proof -
  let ?q = "\<lparr>elements = [Some (1::int), Some 2], size_q = 2, count = 2, front = 0, rear = 0\<rparr>"
  have wf: "well_formed ?q"
    by (simp add: well_formed_def contents_def slot_def numeral_2_eq_2)
  from Push_effect [OF wf, of 3] wf show ?thesis by simp
qed

text \<open>
  C4. From a queue constructed with a capacity of at least 1, every sequence of calls of
  \<open>Push\<close>, \<open>Pop\<close>, \<open>PopWithTimeout\<close> (and \<open>Count\<close>, \<open>Size\<close>) ends in a state with
  \<open>0 \<le> count \<le> size\<close>, \<open>rear = (front + count) mod size\<close>, and \<open>front = rear\<close> when
  \<open>count = 0\<close>.
\<close>

theorem invariants_hold:
  assumes "1 \<le> n" and "Queue n = Inr q0"
  shows "invariants (snd (run cs q0))"
proof -
  have "well_formed q0" by (rule well_formed_Queue(1) [OF assms])
  then have "well_formed (snd (run cs q0))" by (simp add: run_well_formed)
  then show ?thesis by (rule well_formed_invariants)
qed

theorem invariants_hold_witness:
  "(1::int) \<le> 2 \<and>
   (Queue 2 :: error + int Queue) =
     Inr \<lparr>elements = [None, None], size_q = 2, count = 0, front = 0, rear = 0\<rparr> \<and>
   snd (run [CallPush (1::int), CallPush 2, CallPush 3, CallPop, CallPopWithTimeout 100,
             CallPopWithTimeout 100, CallPush 4]
          \<lparr>elements = [None, None], size_q = 2, count = 0, front = 0, rear = 0\<rparr>) =
     \<lparr>elements = [Some 3, Some 4], size_q = 2, count = 1, front = 1, rear = 0\<rparr> \<and>
   invariants \<lparr>elements = [Some (3::int), Some 4], size_q = 2, count = 1, front = 1, rear = 0\<rparr>"
proof -
  let ?q = "\<lparr>elements = [None, None], size_q = 2, count = 0, front = 0, rear = 0\<rparr> :: int Queue"
  let ?cs = "[CallPush (1::int), CallPush 2, CallPush 3, CallPop, CallPopWithTimeout 100,
             CallPopWithTimeout 100, CallPush 4]"
  have q: "Queue 2 = Inr ?q" by (simp add: Queue_def numeral_2_eq_2)
  have r: "snd (run ?cs ?q) =
      \<lparr>elements = [Some 3, Some 4], size_q = 2, count = 1, front = 1, rear = 0\<rparr>"
    by code_simp
  from invariants_hold [OF _ q, of ?cs] q r show ?thesis by simp
qed

text \<open>
  C5. A call of \<open>PopWithTimeout\<close> that fails with \<open>Timeout\<close> leaves the whole state of the
  queue, so \<open>front\<close>, \<open>count\<close>, \<open>rear\<close> and the array, as it found it.
\<close>

theorem Timeout_leaves_state:
  assumes "fst (PopWithTimeout d q) = Inl Timeout"
  shows "snd (PopWithTimeout d q) = q"
  using assms
  by (simp add: PopWithTimeout_unfold split: if_splits option.splits)

theorem Timeout_leaves_state_witness:
  "PopWithTimeout 100 \<lparr>elements = [None, None :: int option], size_q = 2, count = 0, front = 0, rear = 0\<rparr> =
     (Inl Timeout, \<lparr>elements = [None, None], size_q = 2, count = 0, front = 0, rear = 0\<rparr>)"
proof -
  let ?q = "\<lparr>elements = [None, None], size_q = 2, count = 0, front = 0, rear = 0\<rparr> :: int Queue"
  have t: "fst (PopWithTimeout 100 ?q) = Inl Timeout"
    by (simp add: PopWithTimeout_unfold)
  from Timeout_leaves_state [OF t] t show ?thesis
    by (cases "PopWithTimeout 100 ?q") simp
qed

text \<open>
  C6. On a queue with \<open>count > 0\<close>, \<open>PopWithTimeout\<close> with any duration returns what
  \<open>Pop\<close> returns and leaves the state that \<open>Pop\<close> leaves.
\<close>

theorem PopWithTimeout_as_Pop:
  assumes "0 < count q"
  shows "Pop q = Some (PopWithTimeout d q)"
  using assms by (simp add: Pop_def wait_def PopWithTimeout_unfold)

theorem PopWithTimeout_as_Pop_witness:
  "Pop \<lparr>elements = [Some (1::int), None], size_q = 2, count = 1, front = 0, rear = 1\<rparr> =
     Some (Inr 1, \<lparr>elements = [Some 1, None], size_q = 2, count = 0, front = 1, rear = 1\<rparr>) \<and>
   PopWithTimeout 100 \<lparr>elements = [Some (1::int), None], size_q = 2, count = 1, front = 0, rear = 1\<rparr> =
     (Inr 1, \<lparr>elements = [Some 1, None], size_q = 2, count = 0, front = 1, rear = 1\<rparr>)"
proof -
  let ?q = "\<lparr>elements = [Some (1::int), None], size_q = 2, count = 1, front = 0, rear = 1\<rparr>"
  have c: "0 < count ?q" by simp
  have p: "PopWithTimeout 100 ?q =
      (Inr 1, \<lparr>elements = [Some 1, None], size_q = 2, count = 0, front = 1, rear = 1\<rparr>)"
    by (simp add: PopWithTimeout_unfold in_bounds_def signed_modulo_int_def)
  from PopWithTimeout_as_Pop [OF c, of 100] p show ?thesis by simp
qed


text \<open>
  C7. The constructor does not reject the capacity 0: it returns a queue object, and the
  first \<open>Push\<close> on that object divides by zero.
\<close>

theorem Queue_zero_capacity_constructed:
  "(Queue 0 :: error + int Queue) =
     Inr \<lparr>elements = [], size_q = 0, count = 0, front = 0, rear = 0\<rparr> \<and>
   Push (7::int) \<lparr>elements = [], size_q = 0, count = 0, front = 0, rear = 0\<rparr> =
     (Inl DivisionByZero, \<lparr>elements = [], size_q = 0, count = 0, front = 0, rear = 0\<rparr>)"
  by (simp add: Queue_def Push_def)

text \<open>
  C7, as the constructor is written. Construction fails only for a negative capacity,
  in the array allocation. For a capacity \<open>n \<ge> 0\<close> it returns a queue with \<open>Size = n\<close>,
  \<open>Count = 0\<close>, \<open>front = rear = 0\<close>, \<open>n\<close> unassigned slots and no live element; for
  \<open>n \<ge> 1\<close> this queue satisfies the representation invariant, for \<open>n = 0\<close> every \<open>Push\<close>
  on it divides by zero.
\<close>

theorem Queue_construction:
  "case (Queue n :: error + 'a Queue) of
     Inl e \<Rightarrow> n < 0 \<and> e = BadAlloc
   | Inr q \<Rightarrow>
       0 \<le> n \<and> Size q = n \<and> Count q = 0 \<and> front q = 0 \<and> rear q = 0 \<and>
       elements q = replicate (nat n) None \<and> contents q = [] \<and>
       (if n = 0 then Push x q = (Inl DivisionByZero, q) else well_formed q)"
proof (cases "n < 0")
  case True
  then show ?thesis by (simp add: Queue_def)
next
  case False
  then have q: "(Queue n :: error + 'a Queue) = Inr \<lparr>elements = replicate (nat n) None, size_q = n,
      count = 0, front = 0, rear = 0\<rparr>" (is "_ = Inr ?q")
    by (simp add: Queue_def)
  have "n \<noteq> 0 \<Longrightarrow> well_formed ?q"
    using False by (intro well_formed_Queue(1) [OF _ q]) simp
  then show ?thesis using False
    by (simp add: q Size_def Count_def contents_def Push_def)
qed

theorem Queue_construction_witness:
  "(case (Queue 2 :: error + int Queue) of
      Inl e \<Rightarrow> False
    | Inr q \<Rightarrow> Size q = 2 \<and> Count q = 0 \<and> front q = 0 \<and> rear q = 0 \<and> well_formed q) \<and>
   (case (Queue 0 :: error + int Queue) of
      Inl e \<Rightarrow> False
    | Inr q \<Rightarrow> Size q = 0 \<and> Count q = 0 \<and> Push 7 q = (Inl DivisionByZero, q)) \<and>
   (Queue (- 1) :: error + int Queue) = Inl BadAlloc"
proof -
  have a: "(Queue 2 :: error + int Queue) =
      Inr \<lparr>elements = [None, None], size_q = 2, count = 0, front = 0, rear = 0\<rparr>"
    by (simp add: Queue_def numeral_2_eq_2)
  have b: "(Queue 0 :: error + int Queue) =
      Inr \<lparr>elements = [], size_q = 0, count = 0, front = 0, rear = 0\<rparr>"
    by (simp add: Queue_def)
  have c: "(Queue (- 1) :: error + int Queue) = Inl BadAlloc"
    by (simp add: Queue_def)
  from Queue_construction [where ?'a = int, of 2 7] Queue_construction [where ?'a = int, of 0 7] c
  show ?thesis by (simp add: a b numeral_2_eq_2)
qed

text \<open>
  C8. \<open>PopWithTimeout(0)\<close> on a queue that satisfies the representation invariant never
  suspends its caller: when \<open>count > 0\<close> it returns the element at \<open>front\<close>, the oldest
  live element, and removes it; otherwise it fails with \<open>Timeout\<close>, with no time spent
  waiting, and changes nothing.
\<close>

theorem PopWithTimeout_zero:
  assumes "well_formed q"
  shows "if 0 < count q
         then \<exists>x. elements q ! nat (front q) = Some x \<and>
                  contents q = Some x # contents (snd (PopWithTimeout 0 q)) \<and>
                  PopWithTimeout 0 q =
                    (Inr x, q\<lparr>front := (front q + 1) mod size_q q, count := count q - 1\<rparr>) \<and>
                  PopWithTimeout_timed 0 q =
                    (0, Inr x, q\<lparr>front := (front q + 1) mod size_q q, count := count q - 1\<rparr>)
         else PopWithTimeout 0 q = (Inl Timeout, q) \<and>
              PopWithTimeout_timed 0 q = (0, Inl Timeout, q)"
proof (cases "0 < count q")
  case True
  from front_element [OF assms True] obtain x
    where x: "elements q ! nat (front q) = Some x" "contents q = Some x # contents (popped q)"
    by blast
  have "PopWithTimeout 0 q = (Inr x, popped q)"
    by (rule PopWithTimeout_wf_eq [OF assms True x(1)])
  with x True show ?thesis by (simp add: popped_def PopWithTimeout_timed_eq)
next
  case False
  then show ?thesis by (simp add: PopWithTimeout_empty PopWithTimeout_timed_eq)
qed

text \<open>
  A queue of capacity 2 with one element, and the same queue once the element is taken.
  The last line is the contrast: with 100 milliseconds the call on the empty queue fails
  in the same way, after it has suspended its caller for the 100 milliseconds.
\<close>

theorem PopWithTimeout_zero_witness:
  "PopWithTimeout_timed 0 \<lparr>elements = [Some (1::int), None], size_q = 2, count = 1, front = 0, rear = 1\<rparr> =
     (0, Inr 1, \<lparr>elements = [Some 1, None], size_q = 2, count = 0, front = 1, rear = 1\<rparr>) \<and>
   PopWithTimeout_timed 0 \<lparr>elements = [Some (1::int), None], size_q = 2, count = 0, front = 1, rear = 1\<rparr> =
     (0, Inl Timeout, \<lparr>elements = [Some 1, None], size_q = 2, count = 0, front = 1, rear = 1\<rparr>) \<and>
   PopWithTimeout_timed 100 \<lparr>elements = [Some (1::int), None], size_q = 2, count = 0, front = 1, rear = 1\<rparr> =
     (100, Inl Timeout, \<lparr>elements = [Some 1, None], size_q = 2, count = 0, front = 1, rear = 1\<rparr>)"
proof -
  let ?q = "\<lparr>elements = [Some (1::int), None], size_q = 2, count = 1, front = 0, rear = 1\<rparr>"
  let ?q' = "\<lparr>elements = [Some (1::int), None], size_q = 2, count = 0, front = 1, rear = 1\<rparr>"
  have wf: "well_formed ?q"
    by (simp add: well_formed_def contents_def slot_def)
  have wf': "well_formed ?q'"
    by (simp add: well_formed_def contents_def)
  have late: "PopWithTimeout_timed 100 ?q' = (100, Inl Timeout, ?q')"
    by (simp add: PopWithTimeout_timed_def wait_for_def)
  from PopWithTimeout_zero [OF wf] PopWithTimeout_zero [OF wf'] late show ?thesis
    by simp
qed

text \<open>
  C9. \<open>Size\<close> returns the capacity given to the constructor, in the new queue and after
  every sequence of calls of \<open>Push\<close>, \<open>Pop\<close>, \<open>PopWithTimeout\<close>, \<open>Count\<close> and \<open>Size\<close>.
\<close>

theorem Size_constant:
  assumes "Queue n = Inr q0"
  shows "Size q0 = n \<and> Size (snd (run cs q0)) = n"
proof -
  from assms have "size_q q0 = n" by (auto simp: Queue_def split: if_splits)
  then show ?thesis by (simp add: Size_def size_q_run)
qed

theorem Size_constant_witness:
  "(Queue 3 :: error + int Queue) =
     Inr \<lparr>elements = [None, None, None], size_q = 3, count = 0, front = 0, rear = 0\<rparr> \<and>
   Size (snd (run [CallPush (1::int), CallCount, CallPush 2, CallPop, CallPopWithTimeout 100,
                  CallPopWithTimeout 100, CallSize, CallPush 3]
              \<lparr>elements = [None, None, None], size_q = 3, count = 0, front = 0, rear = 0\<rparr>)) = 3"
proof -
  have q: "(Queue 3 :: error + int Queue) =
      Inr \<lparr>elements = [None, None, None], size_q = 3, count = 0, front = 0, rear = 0\<rparr>"
    by (simp add: Queue_def numeral_3_eq_3)
  from Size_constant [OF q, of "[CallPush (1::int), CallCount, CallPush 2, CallPop,
      CallPopWithTimeout 100, CallPopWithTimeout 100, CallSize, CallPush 3]"] q
  show ?thesis by (simp del: run.simps)
qed

text \<open>
  C10. From a queue constructed with a capacity \<open>n \<ge> 1\<close>, no call in any sequence of
  calls indexes the array outside its bounds or divides by zero; in every state reached
  \<open>size\<close> is \<open>n\<close>, the array has \<open>n\<close> elements, and \<open>front\<close> and \<open>rear\<close>, the only indices
  used, lie in \<open>[0, n)\<close>.
\<close>

theorem accesses_in_bounds:
  assumes "1 \<le> n" and "Queue n = Inr q0"
  shows "Raised IndexOutOfBounds \<notin> set (fst (run cs q0)) \<and>
         Raised DivisionByZero \<notin> set (fst (run cs q0)) \<and>
         size_q (snd (run cs q0)) = n \<and>
         int (length (elements (snd (run cs q0)))) = n \<and>
         0 \<le> front (snd (run cs q0)) \<and> front (snd (run cs q0)) < n \<and>
         0 \<le> rear (snd (run cs q0)) \<and> rear (snd (run cs q0)) < n"
proof -
  let ?q = "snd (run cs q0)"
  note q0 = well_formed_Queue [OF assms]
  note r = run_well_formed [OF q0(1), of cs]
  from r q0(3) have sz: "size_q ?q = n" by simp
  from r have wf: "well_formed ?q" by simp
  from r have "Raised IndexOutOfBounds \<notin> set (fst (run cs q0))"
    and "Raised DivisionByZero \<notin> set (fst (run cs q0))"
    by auto
  moreover from wf sz assms(1) have "int (length (elements ?q)) = n"
    and "0 \<le> front ?q" and "front ?q < n" and "0 \<le> rear ?q" and "rear ?q < n"
    by (simp_all add: well_formed_def)
  ultimately show ?thesis using sz by simp
qed

theorem accesses_in_bounds_witness:
  "(1::int) \<le> 2 \<and>
   (Queue 2 :: error + int Queue) =
     Inr \<lparr>elements = [None, None], size_q = 2, count = 0, front = 0, rear = 0\<rparr> \<and>
   run [CallPush (1::int), CallPush 2, CallPush 3, CallPop, CallPush 4, CallPush 5,
        CallPopWithTimeout 100, CallPop, CallPopWithTimeout 100]
     \<lparr>elements = [None, None], size_q = 2, count = 0, front = 0, rear = 0\<rparr> =
     ([Void, Void, Void, Value 2, Void, Void, Value 4, Value 5, Raised Timeout],
      \<lparr>elements = [Some 5, Some 4], size_q = 2, count = 0, front = 1, rear = 1\<rparr>) \<and>
   Raised IndexOutOfBounds \<notin>
     set [Void, Void, Void, Value (2::int), Void, Void, Value 4, Value 5, Raised Timeout] \<and>
   Raised DivisionByZero \<notin>
     set [Void, Void, Void, Value (2::int), Void, Void, Value 4, Value 5, Raised Timeout]"
proof -
  let ?q = "\<lparr>elements = [None, None], size_q = 2, count = 0, front = 0, rear = 0\<rparr> :: int Queue"
  let ?cs = "[CallPush (1::int), CallPush 2, CallPush 3, CallPop, CallPush 4, CallPush 5,
        CallPopWithTimeout 100, CallPop, CallPopWithTimeout 100]"
  have q: "Queue 2 = Inr ?q" by (simp add: Queue_def numeral_2_eq_2)
  have r: "run ?cs ?q =
     ([Void, Void, Void, Value 2, Void, Void, Value 4, Value 5, Raised Timeout],
      \<lparr>elements = [Some 5, Some 4], size_q = 2, count = 0, front = 1, rear = 1\<rparr>)"
    by code_simp
  from accesses_in_bounds [OF _ q, of ?cs] q r show ?thesis by simp
qed

end
